theory Spec2Isabelle
  imports Complex_Main "HOL-Library.Multiset" "HOL-Library.Product_Lexorder"
    "HOL-Library.Monad_Syntax"
begin

section \<open>Closest pair of points: the data model of closest\_points.cpp\<close>

text \<open>
  Coordinates are the finite values of a C++ \<open>double\<close>, read as real numbers: the
  specification calls them real-valued and puts NaN and infinite coordinates out of
  scope, and rounding is not modelled. A distance field additionally takes the value
  \<open>std::numeric_limits<double>::infinity()\<close>, so it has a type of its own.
\<close>

record Point =
  px :: real
  py :: real

datatype dbl = Fin real | PInf

instantiation dbl :: linorder
begin

fun less_eq_dbl :: "dbl \<Rightarrow> dbl \<Rightarrow> bool" where
  "less_eq_dbl (Fin a) (Fin b) = (a \<le> b)"
| "less_eq_dbl _ PInf = True"
| "less_eq_dbl PInf (Fin b) = False"

fun less_dbl :: "dbl \<Rightarrow> dbl \<Rightarrow> bool" where
  "less_dbl (Fin a) (Fin b) = (a < b)"
| "less_dbl (Fin a) PInf = True"
| "less_dbl PInf _ = False"

instance
proof
  fix x y z :: dbl
  show "(x < y) = (x \<le> y \<and> \<not> y \<le> x)"
    by (cases x; cases y) auto
  show "x \<le> x"
    by (cases x) auto
  show "x \<le> y \<Longrightarrow> y \<le> z \<Longrightarrow> x \<le> z"
    by (cases x; cases y; cases z) auto
  show "x \<le> y \<Longrightarrow> y \<le> x \<Longrightarrow> x = y"
    by (cases x; cases y) auto
  show "x \<le> y \<or> y \<le> x"
    by (cases x; cases y) auto
qed

end

record ClosestResult =
  ra :: Point
  rb :: Point
  rdist :: dbl

text \<open>The point \<open>{0,0}\<close> of the brace initialisers.\<close>

definition origin :: Point where
  "origin = \<lparr>px = 0, py = 0\<rparr>"

text \<open>\<open>ClosestResult best{{0,0},{0,0}, d}\<close>: the placeholder result carrying the distance \<open>d\<close>.\<close>

definition sentinel :: "dbl \<Rightarrow> ClosestResult" where
  "sentinel d = \<lparr>ra = origin, rb = origin, rdist = d\<rparr>"

text \<open>\<open>dist(p, q)\<close>: \<open>dx = p.x - q.x\<close>, \<open>dy = p.y - q.y\<close>, \<open>sqrt(dx*dx + dy*dy)\<close>.\<close>

definition dist_pt :: "Point \<Rightarrow> Point \<Rightarrow> real" where
  "dist_pt p q = (let dx = px p - px q; dy = py p - py q in sqrt (dx * dx + dy * dy))"

subsection \<open>bruteForce\<close>

text \<open>
  The body of both loops: \<open>d = dist(pts[i], pts[j]); if (d < best.dist) best = {pts[i], pts[j], d}\<close>.
\<close>

definition consider_pair :: "Point list \<Rightarrow> nat \<Rightarrow> nat \<Rightarrow> ClosestResult \<Rightarrow> ClosestResult" where
  "consider_pair pts i j best =
     (let d = dist_pt (pts ! i) (pts ! j)
      in if Fin d < rdist best then \<lparr>ra = pts ! i, rb = pts ! j, rdist = Fin d\<rparr> else best)"

text \<open>\<open>for (j = i + 1; j < n; ++j)\<close> and \<open>for (i = 0; i < n; ++i)\<close>; every index read is below \<open>n\<close>.\<close>

definition bruteForce_row :: "Point list \<Rightarrow> nat \<Rightarrow> ClosestResult \<Rightarrow> ClosestResult" where
  "bruteForce_row pts i best = fold (consider_pair pts i) [i + 1 ..< length pts] best"

definition bruteForce :: "Point list \<Rightarrow> ClosestResult" where
  "bruteForce pts = fold (bruteForce_row pts) [0 ..< length pts] (sentinel PInf)"

subsection \<open>closestInStrip\<close>

text \<open>
  The inner loop from index \<open>j\<close> on, with its \<open>break\<close> as the early return:
  \<open>if ((strip[j].y - strip[i].y) >= best.dist) break;\<close>
\<close>

function strip_row :: "Point list \<Rightarrow> nat \<Rightarrow> nat \<Rightarrow> ClosestResult \<Rightarrow> ClosestResult" where
  "strip_row strip i j best =
     (if j < length strip then
        (if rdist best \<le> Fin (py (strip ! j) - py (strip ! i)) then best
         else strip_row strip i (j + 1) (consider_pair strip i j best))
      else best)"
  by pat_completeness auto
termination
  by (relation "measure (\<lambda>(strip, i, j, best). length strip - j)") auto

declare strip_row.simps [simp del]

definition closestInStrip :: "Point list \<Rightarrow> dbl \<Rightarrow> ClosestResult" where
  "closestInStrip strip delta =
     fold (\<lambda>i best. strip_row strip i (i + 1) best) [0 ..< length strip] (sentinel delta)"

subsection \<open>closestRec\<close>

text \<open>
  The partition loop compares the address of the loop variable, a reference to an element
  of \<open>Py\<close>, with the address of the local copy \<open>midPoint\<close>. Addresses are kept apart by
  the object they belong to.
\<close>

datatype addr = Py_elem nat | Local_midPoint

text \<open>The left-hand test of the loop, \<open>p.x < midPoint.x || (p.x == midPoint.x && p.y <= midPoint.y)\<close>.\<close>

definition left_test :: "Point \<Rightarrow> Point \<Rightarrow> bool" where
  "left_test midPoint p \<longleftrightarrow> px p < px midPoint \<or> (px p = px midPoint \<and> py p \<le> py midPoint)"

text \<open>One iteration of \<open>for (const Point& p : Py)\<close>, with \<open>push_back\<close> appending at the end.\<close>

definition partition_step ::
    "Point list \<Rightarrow> Point \<Rightarrow> addr \<times> Point \<Rightarrow> Point list \<times> Point list \<Rightarrow> Point list \<times> Point list" where
  "partition_step XL midPoint = (\<lambda>(a, p) (YL, YR).
     if left_test midPoint p then
       (if XL \<noteq> [] \<and> (px p < px midPoint \<or> a \<noteq> Local_midPoint) then (YL @ [p], YR)
        else if px p < px midPoint then (YL @ [p], YR)
        else if px p \<le> px midPoint then (YL @ [p], YR)
        else (YL, YR @ [p]))
     else (YL, YR @ [p]))"

definition partitionPy :: "Point list \<Rightarrow> Point \<Rightarrow> Point list \<Rightarrow> Point list \<times> Point list" where
  "partitionPy XL midPoint Py =
     fold (partition_step XL midPoint) (zip (map Py_elem [0 ..< length Py]) Py) ([], [])"

text \<open>The strip: \<open>if (std::fabs(p.x - midPoint.x) < delta) strip.push_back(p)\<close>.\<close>

definition build_strip :: "Point \<Rightarrow> dbl \<Rightarrow> Point list \<Rightarrow> Point list" where
  "build_strip midPoint delta Py = filter (\<lambda>p. Fin \<bar>px p - px midPoint\<bar> < delta) Py"

text \<open>What follows the two recursive calls.\<close>

definition combine :: "Point \<Rightarrow> Point list \<Rightarrow> ClosestResult \<Rightarrow> ClosestResult \<Rightarrow> ClosestResult" where
  "combine midPoint Py leftBest rightBest =
     (let best = (if rdist leftBest < rdist rightBest then leftBest else rightBest);
          delta = rdist best;
          strip = build_strip midPoint delta Py;
          stripBest = closestInStrip strip delta
      in if rdist stripBest < rdist best then stripBest else best)"

text \<open>
  The recursion is defined without a termination argument: a call that did not return
  would have the value \<open>None\<close>.
\<close>

partial_function (option) closestRec :: "Point list \<Rightarrow> Point list \<Rightarrow> ClosestResult option" where
  "closestRec Px Py =
     (if length Px \<le> 3 then Some (bruteForce Px)
      else
        Option.bind (closestRec (take (length Px div 2) Px)
               (fst (partitionPy (take (length Px div 2) Px) (Px ! (length Px div 2)) Py)))
          (\<lambda>leftBest.
        Option.bind (closestRec (drop (length Px div 2) Px)
               (snd (partitionPy (take (length Px div 2) Px) (Px ! (length Px div 2)) Py)))
          (\<lambda>rightBest.
        Some (combine (Px ! (length Px div 2)) Py leftBest rightBest))))"

subsection \<open>closestPair\<close>

text \<open>
  The two comparators passed to \<open>std::sort\<close>, and the keys whose lexicographic order they
  are. Two points that neither comparator separates are equal, so the sorted vector is
  the same for every sorting algorithm; insertion sort stands for \<open>std::sort\<close>.
\<close>

definition cmp_x :: "Point \<Rightarrow> Point \<Rightarrow> bool" where
  "cmp_x a b = (if px a \<noteq> px b then px a < px b else py a < py b)"

definition cmp_y :: "Point \<Rightarrow> Point \<Rightarrow> bool" where
  "cmp_y a b = (if py a \<noteq> py b then py a < py b else px a < px b)"

definition key_x :: "Point \<Rightarrow> real \<times> real" where
  "key_x p = (px p, py p)"

definition key_y :: "Point \<Rightarrow> real \<times> real" where
  "key_y p = (py p, px p)"

definition closestPair :: "Point list \<Rightarrow> ClosestResult option" where
  "closestPair pts =
     (if length pts < 2 then Some (sentinel PInf)
      else closestRec (sort_key key_x pts) (sort_key key_y pts))"

section \<open>The same program in double arithmetic\<close>

text \<open>
  The definitions above compute with real numbers. \<open>dist\<close>, the test of the
  \<open>break\<close> and the test that builds the strip compute in \<open>double\<close>, where a
  product can overflow to infinity or underflow to zero and every result is rounded.
  Where that decides a property, the program is read over IEEE 754 binary64: 53-bit
  significands, exponents from -1022 to 1023, subnormal numbers spaced 2^-1074 apart,
  round to nearest with ties to even, each operation rounded once (no fused
  multiply-add, no extended precision). A coordinate is a finite \<open>double\<close>, kept as the
  real number it denotes; the sign of a zero is not kept, and no comparison depends on it.
  NaN is not a value of the model: with finite coordinates no operation of the program
  produces it.
\<close>

datatype double = NegInf | Num real | PosInf

instantiation double :: linorder
begin

fun less_eq_double :: "double \<Rightarrow> double \<Rightarrow> bool" where
  "less_eq_double NegInf _ = True"
| "less_eq_double (Num a) NegInf = False"
| "less_eq_double (Num a) (Num b) = (a \<le> b)"
| "less_eq_double (Num a) PosInf = True"
| "less_eq_double PosInf PosInf = True"
| "less_eq_double PosInf _ = False"

fun less_double :: "double \<Rightarrow> double \<Rightarrow> bool" where
  "less_double NegInf NegInf = False"
| "less_double NegInf _ = True"
| "less_double (Num a) (Num b) = (a < b)"
| "less_double (Num a) PosInf = True"
| "less_double (Num a) NegInf = False"
| "less_double PosInf _ = False"

instance
proof
  fix x y z :: double
  show "(x < y) = (x \<le> y \<and> \<not> y \<le> x)"
    by (cases x; cases y) auto
  show "x \<le> x"
    by (cases x) auto
  show "x \<le> y \<Longrightarrow> y \<le> z \<Longrightarrow> x \<le> z"
    by (cases x; cases y; cases z) auto
  show "x \<le> y \<Longrightarrow> y \<le> x \<Longrightarrow> x = y"
    by (cases x; cases y) auto
  show "x \<le> y \<or> y \<le> x"
    by (cases x; cases y) auto
qed

end

subsection \<open>Rounding\<close>

text \<open>Rounding a real number to the nearest integer, a tie going to the even one.\<close>

definition rne :: "real \<Rightarrow> int" where
  "rne q = (let f = \<lfloor>q\<rfloor> in
     if q - of_int f < 1 / 2 then f
     else if 1 / 2 < q - of_int f then f + 1
     else if even f then f else f + 1)"

text \<open>
  The exponent of the last place of a positive number \<open>r\<close>: with \<open>2^e \<le> r < 2^(e+1)\<close>
  the neighbouring doubles are \<open>2^(e-52)\<close> apart, and below \<open>2^-1022\<close> they are
  \<open>2^-1074\<close> apart.
\<close>

definition ulp_exp :: "real \<Rightarrow> int" where
  "ulp_exp r = max \<lfloor>log 2 r\<rfloor> (- 1022) - 52"

text \<open>
  The double nearest to a positive real number: the nearest multiple of the last place,
  and infinity when that multiple reaches \<open>2^1024\<close>.
\<close>

definition rnd_pos :: "real \<Rightarrow> double" where
  "rnd_pos r =
     (let v = of_int (rne (r / 2 powr of_int (ulp_exp r))) * 2 powr of_int (ulp_exp r)
      in if 2 ^ 1024 \<le> v then PosInf else Num v)"

fun neg64 :: "double \<Rightarrow> double" where
  "neg64 NegInf = PosInf"
| "neg64 (Num a) = Num (- a)"
| "neg64 PosInf = NegInf"

text \<open>Rounding is symmetric about zero.\<close>

definition rnd :: "real \<Rightarrow> double" where
  "rnd r = (if r = 0 then Num 0 else if 0 < r then rnd_pos r else neg64 (rnd_pos (- r)))"

subsection \<open>The operations of the program\<close>

text \<open>\<open>a - b\<close> on two coordinates, which are finite.\<close>

definition sub64 :: "real \<Rightarrow> real \<Rightarrow> double" where
  "sub64 a b = rnd (a - b)"

text \<open>\<open>dx*dx\<close>: the square of an infinity is positive infinity.\<close>

fun sq64 :: "double \<Rightarrow> double" where
  "sq64 (Num a) = rnd (a * a)"
| "sq64 NegInf = PosInf"
| "sq64 PosInf = PosInf"

text \<open>
  \<open>dx*dx + dy*dy\<close>. The sum of the two infinities of opposite sign is NaN in IEEE 754;
  both arguments here are squares, so it does not occur.
\<close>

fun add64 :: "double \<Rightarrow> double \<Rightarrow> double" where
  "add64 (Num a) (Num b) = rnd (a + b)"
| "add64 PosInf _ = PosInf"
| "add64 _ PosInf = PosInf"
| "add64 _ _ = NegInf"

text \<open>
  \<open>std::sqrt\<close>, correctly rounded. The square root of a negative number or of negative
  infinity is NaN in IEEE 754; the argument here is a sum of squares, so it does not occur.
\<close>

fun sqrt64 :: "double \<Rightarrow> double" where
  "sqrt64 (Num a) = rnd (sqrt a)"
| "sqrt64 PosInf = PosInf"
| "sqrt64 NegInf = NegInf"


text \<open>\<open>dist(p, q)\<close> as the program computes it.\<close>

definition dist64 :: "Point \<Rightarrow> Point \<Rightarrow> double" where
  "dist64 p q =
     (let dx = sub64 (px p) (px q); dy = sub64 (py p) (py q)
      in sqrt64 (add64 (sq64 dx) (sq64 dy)))"

subsection \<open>The solvers\<close>

text \<open>
  The functions of the program once more, with the distance field a \<open>double\<close> and
  with \<open>dist\<close>, the subtraction in the test of the \<open>break\<close> and \<open>fabs\<close> of the
  difference in the strip test computed in double arithmetic. The partition loop and the
  two sorts compare coordinates only and are the ones above.
\<close>

record ClosestResult64 =
  ra64 :: Point
  rb64 :: Point
  rdist64 :: double

definition sentinel64 :: "double \<Rightarrow> ClosestResult64" where
  "sentinel64 d = \<lparr>ra64 = origin, rb64 = origin, rdist64 = d\<rparr>"

definition consider_pair64 :: "Point list \<Rightarrow> nat \<Rightarrow> nat \<Rightarrow> ClosestResult64 \<Rightarrow> ClosestResult64" where
  "consider_pair64 pts i j best =
     (let d = dist64 (pts ! i) (pts ! j)
      in if d < rdist64 best then \<lparr>ra64 = pts ! i, rb64 = pts ! j, rdist64 = d\<rparr> else best)"



text \<open>\<open>if ((strip[j].y - strip[i].y) >= best.dist) break;\<close> with the difference rounded.\<close>

function strip_row64 :: "Point list \<Rightarrow> nat \<Rightarrow> nat \<Rightarrow> ClosestResult64 \<Rightarrow> ClosestResult64" where
  "strip_row64 strip i j best =
     (if j < length strip then
        (if rdist64 best \<le> sub64 (py (strip ! j)) (py (strip ! i)) then best
         else strip_row64 strip i (j + 1) (consider_pair64 strip i j best))
      else best)"
  by pat_completeness auto
termination
  by (relation "measure (\<lambda>(strip, i, j, best). length strip - j)") auto

declare strip_row64.simps [simp del]

definition closestInStrip64 :: "Point list \<Rightarrow> double \<Rightarrow> ClosestResult64" where
  "closestInStrip64 strip delta =
     fold (\<lambda>i best. strip_row64 strip i (i + 1) best) [0 ..< length strip] (sentinel64 delta)"





section \<open>Notions used to state the properties\<close>

text \<open>The result built from the points at positions a and b of a vector.\<close>

definition pair_res :: "Point list \<Rightarrow> nat \<Rightarrow> nat \<Rightarrow> ClosestResult" where
  "pair_res pts a b = \<lparr>ra = pts ! a, rb = pts ! b, rdist = Fin (dist_pt (pts ! a) (pts ! b))\<rparr>"

text \<open>The pairs of positions that the two loops of bruteForce have visited before they reach (i, j).\<close>

definition scanned :: "nat \<Rightarrow> nat \<Rightarrow> nat \<Rightarrow> nat \<Rightarrow> nat \<Rightarrow> bool" where
  "scanned n i j a b \<longleftrightarrow> a < b \<and> b < n \<and> (a < i \<or> (a = i \<and> b < j))"

text \<open>The result is the first pair of least distance among the pairs S in scan order, or the placeholder when S is empty.\<close>

definition first_min :: "Point list \<Rightarrow> (nat \<Rightarrow> nat \<Rightarrow> bool) \<Rightarrow> ClosestResult \<Rightarrow> bool" where
  "first_min pts S best \<longleftrightarrow>
     (if \<exists>a b. S a b then
        \<exists>a b. S a b \<and> best = pair_res pts a b \<and>
          (\<forall>a' b'. S a' b' \<longrightarrow>
             dist_pt (pts ! a) (pts ! b) \<le> dist_pt (pts ! a') (pts ! b') \<and>
             (dist_pt (pts ! a') (pts ! b') = dist_pt (pts ! a) (pts ! b) \<longrightarrow>
                a < a' \<or> (a = a' \<and> b \<le> b')))
      else best = sentinel PInf)"

text \<open>The better of the two recursive results, the left one only when strictly better.\<close>

definition pick :: "ClosestResult \<Rightarrow> ClosestResult \<Rightarrow> ClosestResult" where
  "pick l r = (if rdist l < rdist r then l else r)"

text \<open>The result is the pair at two different positions of a part of Px or of Py.\<close>

definition from_pair :: "Point list \<Rightarrow> Point list \<Rightarrow> ClosestResult \<Rightarrow> bool" where
  "from_pair Px Py res \<longleftrightarrow>
     (\<exists>s i k. (mset s \<subseteq># mset Px \<or> mset s \<subseteq># mset Py) \<and> i < k \<and> k < length s \<and>
        res = pair_res s i k)"


text \<open>The partition as the claim words it: a point goes to YL iff p.x < midPoint.x, or p.x == midPoint.x and p.y <= midPoint.y, and to YR otherwise.\<close>

definition partition_by_coordinates :: "Point \<Rightarrow> Point list \<Rightarrow> Point list \<times> Point list" where
  "partition_by_coordinates midPoint Py =
     (filter (\<lambda>p. px p < px midPoint \<or> (px p = px midPoint \<and> py p \<le> py midPoint)) Py,
      filter (\<lambda>p. \<not> (px p < px midPoint \<or> (px p = px midPoint \<and> py p \<le> py midPoint))) Py)"






text \<open>The binary exponent of a positive number, not below the least exponent of a normal double.\<close>

definition bin_exp :: "real \<Rightarrow> int" where
  "bin_exp r = max \<lfloor>log 2 r\<rfloor> (- 1022)"

text \<open>The nearest multiple of the last place, before the overflow test.\<close>

definition rnd_val :: "real \<Rightarrow> real" where
  "rnd_val r = of_int (rne (r / 2 powr of_int (ulp_exp r))) * 2 powr of_int (ulp_exp r)"


section \<open>Auxiliary facts\<close>

lemma cmp_x_key: "cmp_x a b \<longleftrightarrow> key_x a < key_x b"
  by (auto simp: cmp_x_def key_x_def less_prod_def)

lemma cmp_y_key: "cmp_y a b \<longleftrightarrow> key_y a < key_y b"
  by (auto simp: cmp_y_def key_y_def less_prod_def)

lemma dist_pt_nonneg: "0 \<le> dist_pt p q"
  by (simp add: dist_pt_def Let_def)


lemma dist_pt_self: "dist_pt p p = 0"
  by (simp add: dist_pt_def)



lemma scanned_step:
  "i < j \<Longrightarrow> j < n \<Longrightarrow> scanned n i (Suc j) a b \<longleftrightarrow> scanned n i j a b \<or> (a = i \<and> b = j)"
  by (auto simp: scanned_def)

lemma consider_pair_first_min:
  assumes "first_min pts (scanned n i j) best" "i < j" "j < n"
  shows "first_min pts (scanned n i (Suc j)) (consider_pair pts i j best)"
proof (cases "\<exists>a b. scanned n i j a b")
  case False
  then have best: "best = sentinel PInf" using assms(1) by (simp add: first_min_def)
  have only: "\<And>a b. scanned n i (Suc j) a b \<longleftrightarrow> a = i \<and> b = j"
    using False assms(2,3) by (auto simp: scanned_step)
  show ?thesis
    by (simp add: first_min_def only best consider_pair_def sentinel_def pair_res_def)
next
  case True
  then obtain a b where ab: "scanned n i j a b" "best = pair_res pts a b"
    and mn: "\<And>a' b'. scanned n i j a' b' \<Longrightarrow>
             dist_pt (pts ! a) (pts ! b) \<le> dist_pt (pts ! a') (pts ! b') \<and>
             (dist_pt (pts ! a') (pts ! b') = dist_pt (pts ! a) (pts ! b) \<longrightarrow>
                a < a' \<or> (a = a' \<and> b \<le> b'))"
    using assms(1) unfolding first_min_def by auto
  have ex: "\<exists>a b. scanned n i (Suc j) a b" using True assms(2,3) by (auto simp: scanned_step)
  have before: "a < i \<or> (a = i \<and> b < j)" using ab(1) by (simp add: scanned_def)
  show ?thesis
  proof (cases "dist_pt (pts ! i) (pts ! j) < dist_pt (pts ! a) (pts ! b)")
    case True
    then have new: "consider_pair pts i j best = pair_res pts i j"
      by (simp add: consider_pair_def ab(2) pair_res_def)
    have "scanned n i (Suc j) i j" using assms(2,3) by (simp add: scanned_def)
    moreover have "\<forall>a' b'. scanned n i (Suc j) a' b' \<longrightarrow>
             dist_pt (pts ! i) (pts ! j) \<le> dist_pt (pts ! a') (pts ! b') \<and>
             (dist_pt (pts ! a') (pts ! b') = dist_pt (pts ! i) (pts ! j) \<longrightarrow>
                i < a' \<or> (i = a' \<and> j \<le> b'))"
      using True mn assms(2,3) by (fastforce simp: scanned_step)
    ultimately show ?thesis unfolding first_min_def new using ex by auto
  next
    case False
    then have old: "consider_pair pts i j best = pair_res pts a b"
      by (simp add: consider_pair_def ab(2) pair_res_def)
    have "scanned n i (Suc j) a b" using ab(1) assms(2,3) by (simp add: scanned_step)
    moreover have "\<forall>a' b'. scanned n i (Suc j) a' b' \<longrightarrow>
             dist_pt (pts ! a) (pts ! b) \<le> dist_pt (pts ! a') (pts ! b') \<and>
             (dist_pt (pts ! a') (pts ! b') = dist_pt (pts ! a) (pts ! b) \<longrightarrow>
                a < a' \<or> (a = a' \<and> b \<le> b'))"
      using False mn before assms(2,3) by (fastforce simp: scanned_step)
    ultimately show ?thesis unfolding first_min_def old using ex by auto
  qed
qed

lemma row_first_min:
  assumes "first_min pts (scanned n i (Suc i)) best" "Suc i \<le> m" "m \<le> n"
  shows "first_min pts (scanned n i m) (fold (consider_pair pts i) [Suc i ..< m] best)"
  using assms(2,3)
proof (induction m)
  case 0
  then show ?case by simp
next
  case (Suc m)
  show ?case
  proof (cases "Suc i \<le> m")
    case True
    then have "first_min pts (scanned n i m) (fold (consider_pair pts i) [Suc i ..< m] best)"
      using Suc by simp
    then have "first_min pts (scanned n i (Suc m))
        (consider_pair pts i m (fold (consider_pair pts i) [Suc i ..< m] best))"
      using True Suc.prems by (intro consider_pair_first_min) simp_all
    then show ?thesis using True by simp
  next
    case False
    then have "m = i" using Suc.prems by simp
    then show ?thesis using assms(1) by simp
  qed
qed

lemma scanned_next_row: "scanned n i n = scanned n (Suc i) (Suc (Suc i))"
  by (auto simp: scanned_def fun_eq_iff)

lemma bruteForce_row_first_min:
  assumes "first_min pts (scanned (length pts) i (Suc i)) best" "i < length pts"
  shows "first_min pts (scanned (length pts) (Suc i) (Suc (Suc i))) (bruteForce_row pts i best)"
  using row_first_min [OF assms(1), of "length pts"] assms(2)
  by (simp add: bruteForce_row_def scanned_next_row)

lemma bruteForce_prefix_first_min:
  "m \<le> length pts \<Longrightarrow>
   first_min pts (scanned (length pts) m (Suc m)) (fold (bruteForce_row pts) [0 ..< m] (sentinel PInf))"
proof (induction m)
  case 0
  then show ?case by (simp add: first_min_def scanned_def)
next
  case (Suc m)
  then show ?case using bruteForce_row_first_min [of pts m] by simp
qed

lemma scanned_all: "scanned n n (Suc n) a b \<longleftrightarrow> a < b \<and> b < n"
  by (auto simp: scanned_def)

lemma bruteForce_first_min:
  "first_min pts (\<lambda>a b. a < b \<and> b < length pts) (bruteForce pts)"
  using bruteForce_prefix_first_min [of "length pts" pts]
  by (simp add: bruteForce_def scanned_all [abs_def])

lemma consider_pair_cases:
  "consider_pair s i j best = best \<and> rdist best \<le> Fin (dist_pt (s ! i) (s ! j)) \<or>
   consider_pair s i j best = pair_res s i j \<and> rdist (pair_res s i j) < rdist best"
  by (auto simp: consider_pair_def pair_res_def Let_def)


lemma strip_row_le: "rdist (strip_row s i j best) \<le> rdist best"
proof (induction s i j best rule: strip_row.induct)
  case (1 strip i j best)
  show ?case
  proof (cases "j < length strip \<and> \<not> rdist best \<le> Fin (py (strip ! j) - py (strip ! i))")
    case True
    then have "rdist (strip_row strip i (j + 1) (consider_pair strip i j best))
        \<le> rdist (consider_pair strip i j best)"
      using 1 by simp
    also have "\<dots> \<le> rdist best"
      using consider_pair_cases [of strip i j best] by auto
    finally show ?thesis using True by (subst strip_row.simps) simp
  next
    case False
    then show ?thesis by (subst strip_row.simps) auto
  qed
qed

lemma strip_row_origin:
  "strip_row s i j best = best \<or>
   (\<exists>k. j \<le> k \<and> k < length s \<and> strip_row s i j best = pair_res s i k \<and>
        rdist (pair_res s i k) < rdist best)"
proof (induction s i j best rule: strip_row.induct)
  case (1 strip i j best)
  show ?case
  proof (cases "j < length strip \<and> \<not> rdist best \<le> Fin (py (strip ! j) - py (strip ! i))")
    case True
    let ?b = "consider_pair strip i j best"
    have eq: "strip_row strip i j best = strip_row strip i (j + 1) ?b"
      using True by (subst strip_row.simps) simp
    have ih: "strip_row strip i (j + 1) ?b = ?b \<or>
      (\<exists>k. j + 1 \<le> k \<and> k < length strip \<and> strip_row strip i (j + 1) ?b = pair_res strip i k \<and>
        rdist (pair_res strip i k) < rdist ?b)"
      using 1 True by simp
    have le: "rdist ?b \<le> rdist best"
      using consider_pair_cases [of strip i j best] by auto
    from ih show ?thesis
    proof
      assume "strip_row strip i (j + 1) ?b = ?b"
      then show ?thesis
        using consider_pair_cases [of strip i j best] True eq by auto
    next
      assume "\<exists>k. j + 1 \<le> k \<and> k < length strip \<and>
        strip_row strip i (j + 1) ?b = pair_res strip i k \<and> rdist (pair_res strip i k) < rdist ?b"
      then obtain k where "j + 1 \<le> k" "k < length strip"
        "strip_row strip i (j + 1) ?b = pair_res strip i k" "rdist (pair_res strip i k) < rdist ?b"
        by blast
      then show ?thesis using le eq
        by (intro disjI2 exI [of _ k]) auto
    qed
  next
    case False
    then show ?thesis by (subst strip_row.simps) auto
  qed
qed


lemma consider_pair_le: "rdist (consider_pair s i j best) \<le> rdist best"
  using consider_pair_cases [of s i j best] by auto


text \<open>The outer loop of closestInStrip, run over the first m rows.\<close>

lemma strip_prefix_le:
  "rdist (fold (\<lambda>i best. strip_row s i (i + 1) best) [0 ..< m] (sentinel delta)) \<le> delta"
proof (induction m)
  case 0
  then show ?case by (simp add: sentinel_def)
next
  case (Suc m)
  have "rdist (strip_row s m (m + 1) (fold (\<lambda>i best. strip_row s i (i + 1) best) [0 ..< m] (sentinel delta)))
      \<le> rdist (fold (\<lambda>i best. strip_row s i (i + 1) best) [0 ..< m] (sentinel delta))"
    by (rule strip_row_le)
  with Suc show ?case by simp
qed


lemma strip_prefix_origin:
  "m \<le> length s \<Longrightarrow>
   (let r = fold (\<lambda>i best. strip_row s i (i + 1) best) [0 ..< m] (sentinel delta)
    in r = sentinel delta \<or>
       (\<exists>i k. i < k \<and> k < length s \<and> r = pair_res s i k \<and> rdist r < delta))"
proof (induction m)
  case 0
  then show ?case by simp
next
  case (Suc m)
  let ?prev = "fold (\<lambda>i best. strip_row s i (i + 1) best) [0 ..< m] (sentinel delta)"
  have prev: "?prev = sentinel delta \<or>
       (\<exists>i k. i < k \<and> k < length s \<and> ?prev = pair_res s i k \<and> rdist ?prev < delta)"
    using Suc by (simp add: Let_def)
  have le: "rdist ?prev \<le> delta" by (rule strip_prefix_le)
  from strip_row_origin [of s m "m + 1" ?prev]
  have "strip_row s m (m + 1) ?prev = sentinel delta \<or>
       (\<exists>i k. i < k \<and> k < length s \<and> strip_row s m (m + 1) ?prev = pair_res s i k \<and>
           rdist (strip_row s m (m + 1) ?prev) < delta)"
  proof
    assume "strip_row s m (m + 1) ?prev = ?prev"
    then show ?thesis using prev by simp
  next
    assume "\<exists>k. m + 1 \<le> k \<and> k < length s \<and> strip_row s m (m + 1) ?prev = pair_res s m k \<and>
        rdist (pair_res s m k) < rdist ?prev"
    then obtain k where "m + 1 \<le> k" "k < length s" "strip_row s m (m + 1) ?prev = pair_res s m k"
        "rdist (pair_res s m k) < rdist ?prev"
      by blast
    then show ?thesis using le
      by (intro disjI2 exI [of _ m] exI [of _ k]) auto
  qed
  then show ?case by (simp add: Let_def)
qed

lemma closestInStrip_le: "rdist (closestInStrip s delta) \<le> delta"
  unfolding closestInStrip_def by (rule strip_prefix_le)


lemma closestInStrip_origin:
  "closestInStrip s delta = sentinel delta \<or>
   (\<exists>i k. i < k \<and> k < length s \<and> closestInStrip s delta = pair_res s i k \<and>
       rdist (closestInStrip s delta) < delta)"
  using strip_prefix_origin [of "length s" s delta]
  by (simp add: closestInStrip_def Let_def)




text \<open>The partition loop\<close>

lemma partition_step_left:
  "partition_step XL midPoint (a, p) (YL, YR) =
     (if left_test midPoint p then (YL @ [p], YR) else (YL, YR @ [p]))"
  by (auto simp: partition_step_def left_test_def)

lemma partition_fold:
  "length as = length ps \<Longrightarrow>
   fold (partition_step XL midPoint) (zip as ps) (YL, YR) =
     (YL @ filter (left_test midPoint) ps, YR @ filter (\<lambda>p. \<not> left_test midPoint p) ps)"
proof (induction as ps arbitrary: YL YR rule: list_induct2)
  case Nil
  then show ?case by simp
next
  case (Cons a as p ps)
  then show ?case by (simp add: partition_step_left)
qed

lemma partitionPy_filter:
  "partitionPy XL midPoint Py =
     (filter (left_test midPoint) Py, filter (\<lambda>p. \<not> left_test midPoint p) Py)"
  by (simp add: partitionPy_def partition_fold)

lemma left_test_key: "left_test m p \<longleftrightarrow> key_x p \<le> key_x m"
  by (auto simp: left_test_def key_x_def less_eq_prod_def)

lemma key_x_inj: "key_x p = key_x q \<Longrightarrow> p = q"
  by (cases p; cases q) (simp add: key_x_def)

lemma key_y_inj: "key_y p = key_y q \<Longrightarrow> p = q"
  by (cases p; cases q) (simp add: key_y_def)



lemma combine_pick:
  "combine m Py l r =
     (if rdist (closestInStrip (build_strip m (rdist (pick l r)) Py) (rdist (pick l r))) < rdist (pick l r)
      then closestInStrip (build_strip m (rdist (pick l r)) Py) (rdist (pick l r))
      else pick l r)"
  by (simp add: combine_def pick_def Let_def)

lemma pick_cases: "pick l r = l \<or> pick l r = r"
  by (simp add: pick_def)





lemma combine_origin:
  "combine m Py l r = l \<or> combine m Py l r = r \<or>
   (\<exists>s i k. mset s \<subseteq># mset Py \<and> i < k \<and> k < length s \<and> combine m Py l r = pair_res s i k)"
proof -
  define best where "best = pick l r"
  define strip where "strip = build_strip m (rdist best) Py"
  have res: "combine m Py l r =
      (if rdist (closestInStrip strip (rdist best)) < rdist best
       then closestInStrip strip (rdist best) else best)"
    unfolding best_def strip_def by (rule combine_pick)
  have sub: "mset strip \<subseteq># mset Py"
    unfolding strip_def build_strip_def by simp
  show ?thesis
  proof (cases "rdist (closestInStrip strip (rdist best)) < rdist best")
    case False
    then have "combine m Py l r = best" using res by simp
    then show ?thesis using pick_cases [of l r] unfolding best_def by metis
  next
    case True
    then have eq: "combine m Py l r = closestInStrip strip (rdist best)" using res by simp
    have "closestInStrip strip (rdist best) \<noteq> sentinel (rdist best)"
      using True by (auto simp: sentinel_def)
    then obtain i k where ik: "i < k" "k < length strip"
        "closestInStrip strip (rdist best) = pair_res strip i k"
      using closestInStrip_origin [of strip "rdist best"] by blast
    have "\<exists>s i k. mset s \<subseteq># mset Py \<and> i < k \<and> k < length s \<and> combine m Py l r = pair_res s i k"
      using sub ik eq by metis
    then show ?thesis by blast
  qed
qed



lemma closestRec_base: "length Px \<le> 3 \<Longrightarrow> closestRec Px Py = Some (bruteForce Px)"
  by (subst closestRec.simps) simp

lemma closestRec_step:
  assumes "\<not> length Px \<le> 3"
    "closestRec (take (length Px div 2) Px) (filter (left_test (Px ! (length Px div 2))) Py) = Some l"
    "closestRec (drop (length Px div 2) Px)
       (filter (\<lambda>p. \<not> left_test (Px ! (length Px div 2)) p) Py) = Some r"
  shows "closestRec Px Py = Some (combine (Px ! (length Px div 2)) Py l r)"
  using assms by (subst closestRec.simps) (simp add: partitionPy_filter)

lemma halves_smaller:
  assumes "\<not> length Px \<le> 3"
  shows "length (take (length Px div 2) Px) = length Px div 2"
    "length (drop (length Px div 2) Px) = length Px - length Px div 2"
    "length Px div 2 < length Px" "length Px - length Px div 2 < length Px"
    "2 \<le> length Px div 2" "2 \<le> length Px - length Px div 2"
  using assms by simp_all

lemma closestRec_returns: "\<exists>r. closestRec Px Py = Some r"
proof (induction "length Px" arbitrary: Px Py rule: less_induct)
  case less
  show ?case
  proof (cases "length Px \<le> 3")
    case True
    then show ?thesis by (simp add: closestRec_base)
  next
    case False
    let ?mid = "length Px div 2"
    let ?m = "Px ! ?mid"
    have "length (take ?mid Px) < length Px" "length (drop ?mid Px) < length Px"
      using halves_smaller [OF False] by simp_all
    then obtain l r where
      "closestRec (take ?mid Px) (filter (left_test ?m) Py) = Some l"
      "closestRec (drop ?mid Px) (filter (\<lambda>p. \<not> left_test ?m p) Py) = Some r"
      using less by blast
    then show ?thesis using closestRec_step [OF False] by blast
  qed
qed

text \<open>A rule for proofs about the result of closestRec.\<close>

lemma closestRec_induct [consumes 1, case_names base step]:
  assumes res: "closestRec Px Py = Some res"
    and base: "\<And>Px Py. length Px \<le> 3 \<Longrightarrow> Q Px Py (bruteForce Px)"
    and step: "\<And>Px Py l r. \<not> length Px \<le> 3 \<Longrightarrow>
        closestRec (take (length Px div 2) Px) (filter (left_test (Px ! (length Px div 2))) Py) = Some l \<Longrightarrow>
        closestRec (drop (length Px div 2) Px)
           (filter (\<lambda>p. \<not> left_test (Px ! (length Px div 2)) p) Py) = Some r \<Longrightarrow>
        Q (take (length Px div 2) Px) (filter (left_test (Px ! (length Px div 2))) Py) l \<Longrightarrow>
        Q (drop (length Px div 2) Px) (filter (\<lambda>p. \<not> left_test (Px ! (length Px div 2)) p) Py) r \<Longrightarrow>
        Q Px Py (combine (Px ! (length Px div 2)) Py l r)"
  shows "Q Px Py res"
  using res
proof (induction "length Px" arbitrary: Px Py res rule: less_induct)
  case less
  show ?case
  proof (cases "length Px \<le> 3")
    case True
    then have "res = bruteForce Px" using less.prems by (simp add: closestRec_base)
    then show ?thesis using base [OF True, of Py] by simp
  next
    case False
    let ?mid = "length Px div 2"
    let ?m = "Px ! ?mid"
    obtain l where l: "closestRec (take ?mid Px) (filter (left_test ?m) Py) = Some l"
      using closestRec_returns by blast
    obtain r where r: "closestRec (drop ?mid Px) (filter (\<lambda>p. \<not> left_test ?m p) Py) = Some r"
      using closestRec_returns by blast
    have lt: "length (take ?mid Px) < length Px" "length (drop ?mid Px) < length Px"
      using halves_smaller [OF False] by simp_all
    have "Q (take ?mid Px) (filter (left_test ?m) Py) l"
      using less.hyps [OF lt(1) l] .
    moreover have "Q (drop ?mid Px) (filter (\<lambda>p. \<not> left_test ?m p) Py) r"
      using less.hyps [OF lt(2) r] .
    ultimately have "Q Px Py (combine ?m Py l r)"
      using step [OF False l r] by blast
    moreover have "res = combine ?m Py l r"
      using closestRec_step [OF False l r] less.prems by simp
    ultimately show ?thesis by simp
  qed
qed

lemma from_pair_mono:
  assumes "from_pair Px' Py' res" "mset Px' \<subseteq># mset Px" "mset Py' \<subseteq># mset Py"
  shows "from_pair Px Py res"
proof -
  obtain s i k where s: "mset s \<subseteq># mset Px' \<or> mset s \<subseteq># mset Py'" "i < k" "k < length s"
      "res = pair_res s i k"
    using assms(1) unfolding from_pair_def by blast
  have "mset s \<subseteq># mset Px \<or> mset s \<subseteq># mset Py"
    using s(1) assms(2,3) by (meson subset_mset.order_trans)
  then show ?thesis unfolding from_pair_def using s(2-4) by blast
qed

lemma mset_take_sub: "mset (take n xs) \<subseteq># mset xs"
  by (metis append_take_drop_id mset_append mset_subset_eq_add_left)

lemma mset_drop_sub: "mset (drop n xs) \<subseteq># mset xs"
  by (metis append_take_drop_id mset_append mset_subset_eq_add_right)

lemma bruteForce_pair:
  assumes "2 \<le> length pts"
  shows "\<exists>i k. i < k \<and> k < length pts \<and> bruteForce pts = pair_res pts i k"
proof -
  have "\<exists>a b. a < b \<and> b < length pts"
    using assms by (intro exI [of _ 0] exI [of _ 1]) simp
  then show ?thesis
    using bruteForce_first_min [of pts] unfolding first_min_def by auto
qed


lemma closestRec_from_pair:
  assumes "closestRec Px Py = Some res" "2 \<le> length Px"
  shows "from_pair Px Py res"
  using assms
proof (induction rule: closestRec_induct)
  case (base Px Py)
  then obtain i k where "i < k" "k < length Px" "bruteForce Px = pair_res Px i k"
    using bruteForce_pair by blast
  then show ?case unfolding from_pair_def by (intro exI [of _ Px] exI [of _ i] exI [of _ k]) simp
next
  case (step Px Py l r)
  let ?mid = "length Px div 2"
  let ?m = "Px ! ?mid"
  have "from_pair (take ?mid Px) (filter (left_test ?m) Py) l"
    using step.IH(1) halves_smaller [OF step.hyps(1)] by simp
  then have l: "from_pair Px Py l"
    by (rule from_pair_mono) (simp_all add: mset_take_sub)
  have "from_pair (drop ?mid Px) (filter (\<lambda>p. \<not> left_test ?m p) Py) r"
    using step.IH(2) halves_smaller [OF step.hyps(1)] by simp
  then have r: "from_pair Px Py r"
    by (rule from_pair_mono) (simp_all add: mset_drop_sub)
  from combine_origin [of ?m Py l r] show ?case
  proof (elim disjE exE conjE)
    assume "combine ?m Py l r = l" then show ?thesis using l by simp
  next
    assume "combine ?m Py l r = r" then show ?thesis using r by simp
  next
    fix s i k
    assume "mset s \<subseteq># mset Py" "i < k" "k < length s" "combine ?m Py l r = pair_res s i k"
    then show ?thesis unfolding from_pair_def by blast
  qed
qed

lemma sorted_key_nth:
  "sorted (map key_x Px) \<Longrightarrow> i \<le> j \<Longrightarrow> j < length Px \<Longrightarrow> key_x (Px ! i) \<le> key_x (Px ! j)"
  using sorted_nth_mono [of "map key_x Px" i j] by simp





lemma pair_res_sel:
  "ra (pair_res s i k) = s ! i" "rb (pair_res s i k) = s ! k"
  by (simp_all add: pair_res_def)


lemma closestPair_returns: "\<exists>res. closestPair pts = Some res"
  using closestRec_returns by (simp add: closestPair_def)





lemma bruteForce_small: "length pts < 2 \<Longrightarrow> bruteForce pts = sentinel PInf"
  using bruteForce_first_min [of pts] unfolding first_min_def by auto

lemma bruteForce_shape:
  "bruteForce pts = sentinel PInf \<or>
   rdist (bruteForce pts) = Fin (dist_pt (ra (bruteForce pts)) (rb (bruteForce pts)))"
proof (cases "2 \<le> length pts")
  case True
  then show ?thesis using bruteForce_pair [of pts] by (auto simp: pair_res_def)
next
  case False
  then show ?thesis using bruteForce_small [of pts] by simp
qed

lemma closestRec_shape:
  assumes "closestRec Px Py = Some res"
  shows "res = sentinel PInf \<or> rdist res = Fin (dist_pt (ra res) (rb res))"
proof (cases "2 \<le> length Px")
  case True
  with assms have "from_pair Px Py res" by (rule closestRec_from_pair)
  then show ?thesis unfolding from_pair_def by (auto simp: pair_res_def)
next
  case False
  then have "res = bruteForce Px" using assms by (simp add: closestRec_base)
  then show ?thesis using bruteForce_shape by simp
qed

lemma filter_eq_replicate: "filter (\<lambda>x. k = x) zs = replicate (count (mset zs) k) k"
  by (induction zs) auto

lemma sort_key_mset_cong:
  assumes "mset xs = mset ys" "\<And>a b. f a = f b \<Longrightarrow> a = b"
  shows "sort_key f xs = sort_key f ys"
proof (rule properties_for_sort_key)
  show "mset (sort_key f ys) = mset xs" using assms(1) by simp
  show "sorted (map f (sort_key f ys))" by simp
  fix k
  have "filter (\<lambda>x. f k = f x) zs = filter (\<lambda>x. k = x) zs" for zs
    using assms(2) by (intro filter_cong) auto
  then show "filter (\<lambda>x. f k = f x) (sort_key f ys) = filter (\<lambda>x. f k = f x) xs"
    using assms(1) by (simp add: filter_eq_replicate)
qed

lemma closestPair_perm:
  assumes "mset pts' = mset pts"
  shows "closestPair pts' = closestPair pts"
proof -
  have "length pts' = length pts" using assms by (rule mset_eq_length)
  moreover have "sort_key key_x pts' = sort_key key_x pts"
    using assms key_x_inj by (rule sort_key_mset_cong)
  moreover have "sort_key key_y pts' = sort_key key_y pts"
    using assms key_y_inj by (rule sort_key_mset_cong)
  ultimately show ?thesis by (simp add: closestPair_def)
qed



text \<open>
  On an x-sorted Px and a Py with the same points, the partition loop always puts more
  than n div 2 points into YL: the midpoint itself passes the left-hand test.
\<close>

lemma partition_left_too_long:
  assumes "3 < length Px" "sorted (map key_x Px)" "mset Py = mset Px"
  shows "length Px div 2 < length (fst (partitionPy (take (length Px div 2) Px) (Px ! (length Px div 2)) Py))"
proof -
  let ?mid = "length Px div 2"
  let ?m = "Px ! ?mid"
  have mid: "?mid < length Px" using assms(1) by simp
  have all: "\<forall>p \<in> set (take (Suc ?mid) Px). left_test ?m p"
  proof
    fix p assume "p \<in> set (take (Suc ?mid) Px)"
    then obtain i where "i < Suc ?mid" "i < length Px" "Px ! i = p"
      by (auto simp: in_set_conv_nth)
    then show "left_test ?m p"
      using sorted_key_nth [OF assms(2) _ mid, of i] by (simp add: left_test_key)
  qed
  have "Suc ?mid = length (filter (left_test ?m) (take (Suc ?mid) Px))"
    using all mid by (simp add: filter_True)
  also have "\<dots> = size (filter_mset (left_test ?m) (mset (take (Suc ?mid) Px)))"
    by (simp flip: mset_filter)
  also have "\<dots> \<le> size (filter_mset (left_test ?m) (mset Px))"
    by (intro size_mset_mono multiset_filter_mono mset_take_sub)
  also have "\<dots> = size (mset (filter (left_test ?m) Py))"
    using assms(3) by simp
  also have "\<dots> = length (filter (left_test ?m) Py)"
    by (rule size_mset)
  finally show ?thesis by (simp add: partitionPy_filter)
qed

subsection \<open>Double arithmetic\<close>

lemma rne_of_int [simp]: "rne (of_int z) = z"
  by (simp add: rne_def)


lemma ulp_exp_pow2: "ulp_exp (2 powr of_int k) = max k (- 1022) - 52"
  by (simp add: ulp_exp_def)

lemma rnd_pos_pow2:
  assumes "- 1022 \<le> k"
  shows "rnd_pos (2 powr of_int k) = (if 1024 \<le> k then PosInf else Num (2 powr of_int k))"
proof -
  have e: "ulp_exp (2 powr of_int k) = k - 52" using assms by (simp add: ulp_exp_pow2)
  have "2 powr of_int k / 2 powr of_int (k - 52) = (2::real) powr 52"
    by (simp flip: powr_diff)
  also have "\<dots> = of_int (2 ^ 52)" by (simp add: powr_numeral)
  finally have q: "2 powr of_int k / 2 powr of_int (k - 52) = real_of_int (2 ^ 52)" .
  have v: "real_of_int (2 ^ 52) * 2 powr of_int (k - 52) = 2 powr of_int k"
    using q by (simp add: field_simps)
  have big: "(2::real) ^ 1024 \<le> 2 powr of_int k \<longleftrightarrow> 1024 \<le> k"
  proof -
    have "(2::real) ^ 1024 = 2 powr of_int 1024" by (simp add: powr_numeral)
    then show ?thesis by (simp only: powr_le_cancel_iff) auto
  qed
  show ?thesis
    unfolding rnd_pos_def e Let_def q rne_of_int v big by simp
qed

lemma rnd_pow2: "- 1022 \<le> k \<Longrightarrow> k < 1024 \<Longrightarrow> rnd (2 powr of_int k) = Num (2 powr of_int k)"
  by (simp add: rnd_def rnd_pos_pow2)













lemma sub64_zero_right: "sub64 a 0 = rnd a"
  by (simp add: sub64_def)

lemma sub64_self: "sub64 a a = Num 0"
  by (simp add: sub64_def rnd_def)

lemma sub64_swap: "sub64 b a = neg64 (sub64 a b)"
proof -
  have "rnd (- r) = neg64 (rnd r)" for r
  proof -
    have "neg64 (neg64 x) = x" for x by (cases x) simp_all
    then show ?thesis by (simp add: rnd_def)
  qed
  from this [of "a - b"] show ?thesis by (simp add: sub64_def)
qed

lemma sq64_neg64: "sq64 (neg64 x) = sq64 x"
  by (cases x) simp_all

































lemma rnd_0: "rnd 0 = Num 0"
  by (simp add: rnd_def)


lemma sq64_0: "sq64 (Num 0) = Num 0"
  by (simp add: rnd_0)











subsection \<open>Rounding is monotone, and the break of closestInStrip is sound\<close>





lemma ulp_exp_bin: "ulp_exp r = bin_exp r - 52"
  by (simp add: ulp_exp_def bin_exp_def)




lemma bin_exp_lower: "- 1022 \<le> bin_exp r"
  by (simp add: bin_exp_def)


lemma rnd_pos_val: "rnd_pos r = (if 2 ^ 1024 \<le> rnd_val r then PosInf else Num (rnd_val r))"
  by (simp add: rnd_pos_def rnd_val_def Let_def)













lemma bin_exp_le:
  assumes "0 < v" "v < 2 powr of_int (k + 1)" "- 1022 \<le> k"
  shows "bin_exp v \<le> k"
proof -
  have "log 2 v < of_int (k + 1)" using assms(1,2) by (simp add: log_less_iff)
  then have "\<lfloor>log 2 v\<rfloor> < k + 1" by (simp only: floor_less_iff)
  then show ?thesis using assms(3) by (simp add: bin_exp_def)
qed















subsection \<open>Runs in double arithmetic\<close>






lemma rnd_tiny:
  assumes "0 < r" "r < 2 powr of_int (- 1075)"
  shows "rnd r = Num 0"
proof -
  have "r < 2 powr of_int (- 1022 + 1)"
    using assms(2) by (rule less_le_trans) simp
  then have "bin_exp r \<le> - 1022" using assms(1) by (intro bin_exp_le) simp_all
  then have "bin_exp r = - 1022" using bin_exp_lower [of r] by simp
  then have u: "ulp_exp r = - 1074" by (simp add: ulp_exp_bin)
  have "r / 2 powr of_int (- 1074) < 2 powr of_int (- 1075) / 2 powr of_int (- 1074)"
    using assms(2) by (simp add: divide_strict_right_mono)
  also have "\<dots> = 2 powr (of_int (- 1075) - of_int (- 1074))" by (simp only: powr_diff)
  also have "\<dots> = 1 / 2" by (simp add: powr_minus_divide)
  finally have q: "r / 2 powr of_int (- 1074) < 1 / 2" .
  have q0: "0 \<le> r / 2 powr of_int (- 1074)" using assms(1) by simp
  define w where "w = r / 2 powr of_int (- 1074)"
  have w: "0 \<le> w" "w < 1 / 2" using q q0 by (simp_all only: w_def)
  then have "of_int 0 \<le> w" "w < of_int 0 + 1" by simp_all
  then have "\<lfloor>w\<rfloor> = 0" by (rule floor_unique)
  then have "rne w = 0" using w(2) by (simp add: rne_def)
  then have "rnd_val r = 0" unfolding rnd_val_def u w_def by simp
  then have "rnd_pos r = Num 0" by (simp add: rnd_pos_val)
  then show ?thesis using assms(1) by (simp add: rnd_def)
qed

lemma rnd_2_m600: "rnd (2 powr of_int (- 600)) = Num (2 powr of_int (- 600))"
  by (rule rnd_pow2) simp_all

lemma sq64_2_m600: "sq64 (Num (2 powr of_int (- 600))) = Num 0"
proof -
  have "(2::real) powr of_int (- 600) * 2 powr of_int (- 600) = 2 powr (of_int (- 600) + of_int (- 600))"
    by (simp only: powr_add)
  also have "\<dots> = 2 powr of_int (- 1200)" by simp
  finally have sq: "(2::real) powr of_int (- 600) * 2 powr of_int (- 600) = 2 powr of_int (- 1200)" .
  have "rnd (2 powr of_int (- 1200)) = Num 0"
    by (rule rnd_tiny) simp_all
  then show ?thesis by (simp only: sq64.simps sq)
qed

text \<open>
  Without the condition on the y-gaps the break can skip a pair: on the y-sorted sequence
  (0, 0), (0, 2^-600) with delta = 2^-601 the square of dy underflows, dist computes 0,
  which is below delta, but the y-difference 2^-600 is not, and the placeholder is returned.
\<close>

lemma closestInStrip64_underflow:
  "sorted (map py [\<lparr>px = 0, py = 0\<rparr>, \<lparr>px = 0, py = 2 powr of_int (- 600)\<rparr>]) \<and>
   dist64 \<lparr>px = 0, py = 0\<rparr> \<lparr>px = 0, py = 2 powr of_int (- 600)\<rparr> = Num 0 \<and>
   Num 0 < Num (2 powr of_int (- 601)) \<and>
   closestInStrip64 [\<lparr>px = 0, py = 0\<rparr>, \<lparr>px = 0, py = 2 powr of_int (- 600)\<rparr>]
       (Num (2 powr of_int (- 601))) =
     \<lparr>ra64 = origin, rb64 = origin, rdist64 = Num (2 powr of_int (- 601))\<rparr>"
proof (intro conjI)
  let ?q = "\<lparr>px = 0, py = 2 powr of_int (- 600)\<rparr>"
  let ?s = "[\<lparr>px = 0, py = 0\<rparr>, ?q]"
  let ?d = "Num (2 powr of_int (- 601))"
  show "sorted (map py ?s)" by simp
  show "Num 0 < ?d" by simp
  have dy: "sq64 (sub64 0 (2 powr of_int (- 600))) = Num 0"
    by (subst sub64_swap) (simp only: sq64_neg64 sub64_zero_right rnd_2_m600 sq64_2_m600)
  show "dist64 \<lparr>px = 0, py = 0\<rparr> ?q = Num 0"
    by (simp only: dist64_def Let_def Point.select_convs dy sub64_self sq64_0 add64.simps
        sqrt64.simps add_0 real_sqrt_zero rnd_0)
  have brk: "?d \<le> sub64 (py (?s ! 1)) (py (?s ! 0))"
    using rnd_2_m600 by (simp add: sub64_def)
  have row0: "strip_row64 ?s 0 1 (sentinel64 ?d) = sentinel64 ?d"
    using brk by (subst strip_row64.simps) (simp add: sentinel64_def)
  have row1: "strip_row64 ?s 1 2 (sentinel64 ?d) = sentinel64 ?d"
    by (subst strip_row64.simps) simp
  have "closestInStrip64 ?s ?d = sentinel64 ?d"
    using row0 row1 by (simp add: closestInStrip64_def upt_rec numeral_2_eq_2)
  then show "closestInStrip64 ?s ?d = \<lparr>ra64 = origin, rb64 = origin, rdist64 = ?d\<rparr>"
    by (simp only: sentinel64_def)
qed

section \<open>The claims\<close>



text \<open>
  C2. At the failing input, the four points (0,0), (1,0), (2,0), (3,0), which are in
  x-order and in y-order as they stand: XL and XR have two points each, and the partition
  loop puts three points into YL and one into YR.
\<close>

theorem C2_partition_sizes_at_input:
  "sorted (map key_x [\<lparr>px = 0, py = 0\<rparr>, \<lparr>px = 1, py = 0\<rparr>, \<lparr>px = 2, py = 0\<rparr>, \<lparr>px = 3, py = 0\<rparr>]) \<and>
   sorted (map key_y [\<lparr>px = 0, py = 0\<rparr>, \<lparr>px = 1, py = 0\<rparr>, \<lparr>px = 2, py = 0\<rparr>, \<lparr>px = 3, py = 0\<rparr>]) \<and>
   length [\<lparr>px = 0, py = 0\<rparr>, \<lparr>px = 1, py = 0\<rparr>, \<lparr>px = 2, py = 0\<rparr>, \<lparr>px = 3, py = 0::real\<rparr>] div 2 = 2 \<and>
   take 2 [\<lparr>px = 0, py = 0\<rparr>, \<lparr>px = 1, py = 0\<rparr>, \<lparr>px = 2, py = 0\<rparr>, \<lparr>px = 3, py = 0::real\<rparr>]
     = [\<lparr>px = 0, py = 0\<rparr>, \<lparr>px = 1, py = 0\<rparr>] \<and>
   drop 2 [\<lparr>px = 0, py = 0\<rparr>, \<lparr>px = 1, py = 0\<rparr>, \<lparr>px = 2, py = 0\<rparr>, \<lparr>px = 3, py = 0::real\<rparr>]
     = [\<lparr>px = 2, py = 0\<rparr>, \<lparr>px = 3, py = 0\<rparr>] \<and>
   partitionPy [\<lparr>px = 0, py = 0\<rparr>, \<lparr>px = 1, py = 0\<rparr>]
       ([\<lparr>px = 0, py = 0\<rparr>, \<lparr>px = 1, py = 0\<rparr>, \<lparr>px = 2, py = 0\<rparr>, \<lparr>px = 3, py = 0\<rparr>] ! 2)
       [\<lparr>px = 0, py = 0\<rparr>, \<lparr>px = 1, py = 0\<rparr>, \<lparr>px = 2, py = 0\<rparr>, \<lparr>px = 3, py = 0\<rparr>]
     = ([\<lparr>px = 0, py = 0\<rparr>, \<lparr>px = 1, py = 0\<rparr>, \<lparr>px = 2, py = 0\<rparr>], [\<lparr>px = 3, py = 0\<rparr>])"
  by (simp add: partitionPy_filter left_test_def key_x_def key_y_def less_eq_prod_def)

text \<open>
  C3, as stated, fails at the empty input: bruteForce returns the placeholder with
  distance infinity, while the distance from (0,0) to (0,0) is 0.
\<close>

theorem C3_sentinel_counterexample:
  "rdist (bruteForce []) \<noteq> Fin (dist_pt (ra (bruteForce [])) (rb (bruteForce [])))"
  by (simp add: bruteForce_def sentinel_def)

text \<open>
  C3, amended. A result of bruteForce, closestRec or closestPair is the placeholder
  \<open>{{0,0},{0,0}, infinity}\<close> or has the distance of its two points; a result of
  closestInStrip is the placeholder \<open>{{0,0},{0,0}, delta}\<close> or has the distance of its two points.
\<close>

theorem C3_dist_is_distance_or_sentinel:
  "(bruteForce pts = \<lparr>ra = origin, rb = origin, rdist = PInf\<rparr> \<or>
      rdist (bruteForce pts) = Fin (dist_pt (ra (bruteForce pts)) (rb (bruteForce pts)))) \<and>
   (closestInStrip strip delta = \<lparr>ra = origin, rb = origin, rdist = delta\<rparr> \<or>
      rdist (closestInStrip strip delta) =
        Fin (dist_pt (ra (closestInStrip strip delta)) (rb (closestInStrip strip delta)))) \<and>
   (\<exists>res. closestRec Px Py = Some res \<and>
      (res = \<lparr>ra = origin, rb = origin, rdist = PInf\<rparr> \<or> rdist res = Fin (dist_pt (ra res) (rb res)))) \<and>
   (\<exists>res. closestPair pts = Some res \<and>
      (res = \<lparr>ra = origin, rb = origin, rdist = PInf\<rparr> \<or> rdist res = Fin (dist_pt (ra res) (rb res))))"
proof (intro conjI)
  show "bruteForce pts = \<lparr>ra = origin, rb = origin, rdist = PInf\<rparr> \<or>
      rdist (bruteForce pts) = Fin (dist_pt (ra (bruteForce pts)) (rb (bruteForce pts)))"
    using bruteForce_shape [of pts] by (simp add: sentinel_def)
  show "closestInStrip strip delta = \<lparr>ra = origin, rb = origin, rdist = delta\<rparr> \<or>
      rdist (closestInStrip strip delta) =
        Fin (dist_pt (ra (closestInStrip strip delta)) (rb (closestInStrip strip delta)))"
    using closestInStrip_origin [of strip delta] by (auto simp: sentinel_def pair_res_def)
  show rec: "\<exists>res. closestRec Px Py = Some res \<and>
      (res = \<lparr>ra = origin, rb = origin, rdist = PInf\<rparr> \<or> rdist res = Fin (dist_pt (ra res) (rb res)))"
    for Px Py
    using closestRec_returns [of Px Py] closestRec_shape [of Px Py] by (auto simp: sentinel_def)
  show "\<exists>res. closestPair pts = Some res \<and>
      (res = \<lparr>ra = origin, rb = origin, rdist = PInf\<rparr> \<or> rdist res = Fin (dist_pt (ra res) (rb res)))"
    unfolding closestPair_def using rec by (simp add: sentinel_def)
qed










text \<open>
  C7. On an input of size 0 or 1, closestPair returns, without an error, the placeholder
  result whose distance is positive infinity.
\<close>

theorem C7_closestPair_small_input:
  "length pts < 2 \<Longrightarrow> closestPair pts = Some \<lparr>ra = origin, rb = origin, rdist = PInf\<rparr>"
  by (simp add: closestPair_def sentinel_def)

theorem C7_closestPair_small_input_witness:
  "length [\<lparr>px = 1, py = 2::real\<rparr>] < 2 \<and>
   closestPair [\<lparr>px = 1, py = 2\<rparr>] = Some \<lparr>ra = origin, rb = origin, rdist = PInf\<rparr>"
proof
  show len: "length [\<lparr>px = 1, py = 2::real\<rparr>] < 2" by simp
  show "closestPair [\<lparr>px = 1, py = 2\<rparr>] = Some \<lparr>ra = origin, rb = origin, rdist = PInf\<rparr>"
    using len by (rule C7_closestPair_small_input)
qed

text \<open>
  C8. closestRec returns on every pair of sequences, and closestPair on every sequence;
  with more than three points the two recursive calls are on sequences of n div 2 and
  n - n div 2 points, both shorter than n.
\<close>

theorem C8_closestRec_terminates:
  "(\<exists>res. closestRec Px Py = Some res) \<and> (\<exists>res. closestPair pts = Some res) \<and>
   (3 < length Px \<longrightarrow>
      length (take (length Px div 2) Px) = length Px div 2 \<and>
      length (drop (length Px div 2) Px) = length Px - length Px div 2 \<and>
      length (take (length Px div 2) Px) < length Px \<and>
      length (drop (length Px div 2) Px) < length Px)"
proof (intro conjI impI)
  show "\<exists>res. closestRec Px Py = Some res" by (rule closestRec_returns)
  show "\<exists>res. closestPair pts = Some res" by (rule closestPair_returns)
next
  assume big: "3 < length Px"
  then show "length (take (length Px div 2) Px) = length Px div 2"
    and "length (drop (length Px div 2) Px) = length Px - length Px div 2"
    and "length (take (length Px div 2) Px) < length Px"
    and "length (drop (length Px div 2) Px) < length Px"
    by simp_all
qed

theorem C8_closestRec_terminates_witness:
  "3 < length [\<lparr>px = 0, py = 0\<rparr>, \<lparr>px = 1, py = 0\<rparr>, \<lparr>px = 2, py = 0\<rparr>, \<lparr>px = 3, py = 0::real\<rparr>] \<and>
   (\<exists>res. closestRec [\<lparr>px = 0, py = 0\<rparr>, \<lparr>px = 1, py = 0\<rparr>, \<lparr>px = 2, py = 0\<rparr>, \<lparr>px = 3, py = 0\<rparr>]
      [\<lparr>px = 0, py = 0\<rparr>, \<lparr>px = 1, py = 0\<rparr>, \<lparr>px = 2, py = 0\<rparr>, \<lparr>px = 3, py = 0\<rparr>] = Some res) \<and>
   length (take 2 [\<lparr>px = 0, py = 0\<rparr>, \<lparr>px = 1, py = 0\<rparr>, \<lparr>px = 2, py = 0\<rparr>, \<lparr>px = 3, py = 0::real\<rparr>]) = 2 \<and>
   length (drop 2 [\<lparr>px = 0, py = 0\<rparr>, \<lparr>px = 1, py = 0\<rparr>, \<lparr>px = 2, py = 0\<rparr>, \<lparr>px = 3, py = 0::real\<rparr>]) = 2"
  using C8_closestRec_terminates
    [of "[\<lparr>px = 0, py = 0\<rparr>, \<lparr>px = 1, py = 0\<rparr>, \<lparr>px = 2, py = 0\<rparr>, \<lparr>px = 3, py = 0\<rparr>]"
        "[\<lparr>px = 0, py = 0\<rparr>, \<lparr>px = 1, py = 0\<rparr>, \<lparr>px = 2, py = 0\<rparr>, \<lparr>px = 3, py = 0\<rparr>]" "[]"]
  by simp

text \<open>
  C9. closestPair returns the same distance on a sequence of points and on every
  permutation of it.
\<close>

theorem C9_closestPair_permutation:
  "mset pts' = mset pts \<Longrightarrow>
   \<exists>res res'. closestPair pts = Some res \<and> closestPair pts' = Some res' \<and> rdist res' = rdist res"
  using closestPair_perm [of pts' pts] closestPair_returns [of pts] by auto

theorem C9_closestPair_permutation_witness:
  "mset [\<lparr>px = 3, py = 4\<rparr>, \<lparr>px = 0, py = 0\<rparr>, \<lparr>px = 1, py = 1::real\<rparr>] =
     mset [\<lparr>px = 0, py = 0\<rparr>, \<lparr>px = 1, py = 1\<rparr>, \<lparr>px = 3, py = 4\<rparr>] \<and>
   (\<exists>res res'. closestPair [\<lparr>px = 0, py = 0\<rparr>, \<lparr>px = 1, py = 1\<rparr>, \<lparr>px = 3, py = 4\<rparr>] = Some res \<and>
      closestPair [\<lparr>px = 3, py = 4\<rparr>, \<lparr>px = 0, py = 0\<rparr>, \<lparr>px = 1, py = 1\<rparr>] = Some res' \<and>
      rdist res' = rdist res)"
proof
  show perm: "mset [\<lparr>px = 3, py = 4\<rparr>, \<lparr>px = 0, py = 0\<rparr>, \<lparr>px = 1, py = 1::real\<rparr>] =
     mset [\<lparr>px = 0, py = 0\<rparr>, \<lparr>px = 1, py = 1\<rparr>, \<lparr>px = 3, py = 4\<rparr>]"
    by simp
  show "\<exists>res res'. closestPair [\<lparr>px = 0, py = 0\<rparr>, \<lparr>px = 1, py = 1\<rparr>, \<lparr>px = 3, py = 4\<rparr>] = Some res \<and>
      closestPair [\<lparr>px = 3, py = 4\<rparr>, \<lparr>px = 0, py = 0\<rparr>, \<lparr>px = 1, py = 1\<rparr>] = Some res' \<and>
      rdist res' = rdist res"
    using perm by (rule C9_closestPair_permutation)
qed

text \<open>
  C10. With more than three points, the partition loop computes the partition by the
  coordinate test alone; XL is not empty, the address of an element of Py is never the
  address of midPoint, and so the first of the nested tests holds for every element of Py.
\<close>

theorem C10_partition_is_coordinate_test:
  "3 < length Px \<Longrightarrow>
   partitionPy (take (length Px div 2) Px) (Px ! (length Px div 2)) Py =
     partition_by_coordinates (Px ! (length Px div 2)) Py \<and>
   take (length Px div 2) Px \<noteq> [] \<and>
   (\<forall>i. Py_elem i \<noteq> Local_midPoint) \<and>
   (\<forall>i < length Py. take (length Px div 2) Px \<noteq> [] \<and>
      (px (Py ! i) < px (Px ! (length Px div 2)) \<or> Py_elem i \<noteq> Local_midPoint))"
proof -
  assume big: "3 < length Px"
  have part: "partitionPy (take (length Px div 2) Px) (Px ! (length Px div 2)) Py =
     partition_by_coordinates (Px ! (length Px div 2)) Py"
    unfolding partitionPy_filter partition_by_coordinates_def left_test_def ..
  have "0 < length (take (length Px div 2) Px)" using big by simp
  then have ne: "take (length Px div 2) Px \<noteq> []" by (rule length_greater_0_conv [THEN iffD1])
  show ?thesis using part ne by simp
qed

theorem C10_partition_is_coordinate_test_witness:
  "3 < length [\<lparr>px = 0, py = 0\<rparr>, \<lparr>px = 1, py = 0\<rparr>, \<lparr>px = 2, py = 0\<rparr>, \<lparr>px = 3, py = 0::real\<rparr>] \<and>
   partitionPy (take 2 [\<lparr>px = 0, py = 0\<rparr>, \<lparr>px = 1, py = 0\<rparr>, \<lparr>px = 2, py = 0\<rparr>, \<lparr>px = 3, py = 0\<rparr>])
       \<lparr>px = 2, py = 0\<rparr>
       [\<lparr>px = 0, py = 0\<rparr>, \<lparr>px = 1, py = 0\<rparr>, \<lparr>px = 2, py = 0\<rparr>, \<lparr>px = 3, py = 0\<rparr>] =
     partition_by_coordinates \<lparr>px = 2, py = 0\<rparr>
       [\<lparr>px = 0, py = 0\<rparr>, \<lparr>px = 1, py = 0\<rparr>, \<lparr>px = 2, py = 0\<rparr>, \<lparr>px = 3, py = 0\<rparr>]"
  using C10_partition_is_coordinate_test
    [of "[\<lparr>px = 0, py = 0\<rparr>, \<lparr>px = 1, py = 0\<rparr>, \<lparr>px = 2, py = 0\<rparr>, \<lparr>px = 3, py = 0\<rparr>]"
        "[\<lparr>px = 0, py = 0\<rparr>, \<lparr>px = 1, py = 0\<rparr>, \<lparr>px = 2, py = 0\<rparr>, \<lparr>px = 3, py = 0\<rparr>]"]
  by simp

end
